theory Spec2Isabelle
  imports Main "HOL-Library.Word" "HOL-Library.AList"
begin

section \<open>Data model of \<^verbatim>\<open>tokens.go\<close>\<close>

text \<open>
  \<^verbatim>\<open>tokenId\<close> is \<^verbatim>\<open>uint16\<close>: the counter \<^verbatim>\<open>tokenKindId\<close> wraps at 65536, which a
  declaration file of 65530 lines reaches, so ids are 16-bit words.
  \<^verbatim>\<open>tokenLineNo\<close> and \<^verbatim>\<open>tokenPosition\<close> are \<^verbatim>\<open>uint64\<close>. They count lines and
  offsets into a line, and a run that keeps increasing \<^verbatim>\<open>step\<close> exhausts the
  goroutine stack long before 2^64, so they are natural numbers here; the two
  places where the source relies on unsigned wrap-around (\<^verbatim>\<open>pos - step\<close> in
  \<^verbatim>\<open>calcViewR\<close>, \<^verbatim>\<open>step - 1\<close> in \<^verbatim>\<open>isToken\<close>) go through \<open>uint64\<close> below,
  the value of an integer as a \<^verbatim>\<open>uint64\<close>.
  A Go string is a byte sequence, as \<^typ>\<open>string\<close> is.
\<close>

type_synonym tokenId = "16 word"
type_synonym tokenName = string
type_synonym tokenSignature = string
type_synonym tokenLineNo = nat
type_synonym tokenPosition = nat

definition uint64 :: "int \<Rightarrow> int" where
  "uint64 i = i mod 18446744073709551616"

text \<open>
  The panics of the source: every slice expression that is out of range, and
  \<^verbatim>\<open>check\<close> on the error of \<^verbatim>\<open>os.Open\<close>.
\<close>

datatype error = SliceOutOfRange | OpenFailed

subsection \<open>Signatures\<close>

fun HasPrefix :: "string \<Rightarrow> string \<Rightarrow> bool" where
  "HasPrefix s [] = True"
| "HasPrefix [] (p # ps) = False"
| "HasPrefix (c # cs) (p # ps) = (c = p \<and> HasPrefix cs ps)"

text \<open>\<^verbatim>\<open>strings.Contains(s, substr)\<close>: \<open>substr\<close> occurs in \<open>s\<close> as a contiguous run.\<close>

fun strContains :: "string \<Rightarrow> string \<Rightarrow> bool" where
  "strContains [] substr = (substr = [])"
| "strContains (c # cs) substr = (HasPrefix (c # cs) substr \<or> strContains cs substr)"

definition Contains :: "tokenSignature \<Rightarrow> tokenSignature \<Rightarrow> bool" where
  "Contains ts ots = strContains ts ots"

definition Compare :: "tokenSignature \<Rightarrow> tokenSignature \<Rightarrow> bool" where
  "Compare ts ots = (ts = ots)"

subsection \<open>Token kinds, token objects and the global registry\<close>

record TokenKind =
  Id' :: tokenId
  Name :: tokenName
  Signature :: tokenSignature

record TokenObject =
  Kind :: TokenKind
  LineNo :: tokenLineNo
  Position :: tokenPosition
  Symbol :: tokenSignature

definition New :: "TokenKind \<Rightarrow> tokenLineNo \<Rightarrow> tokenPosition \<Rightarrow> tokenSignature \<Rightarrow> TokenObject" where
  "New tk line pos symbol = \<lparr>Kind = tk, LineNo = line, Position = pos, Symbol = symbol\<rparr>"

text \<open>
  \<^verbatim>\<open>tokenKindMap\<close> is a Go map. It is an association list with one entry per key, in
  the order in which the keys were first stored. Go iterates a map in an unspecified
  order; the callers of \<^verbatim>\<open>Ids\<close> only look at the length of what \<^verbatim>\<open>Find\<close> and
  \<^verbatim>\<open>FindEx\<close> return and at the element of a one-element result.
\<close>

type_synonym tokenKindMap = "(tokenId \<times> TokenKind) list"

text \<open>The package-level variables.\<close>

record lexer =
  tokenKindId :: tokenId
  tokenKindNameMaxSize :: int
  tokenKindSignatureMaxSize :: int
  tokenKinds :: tokenKindMap

definition lexer0 :: lexer where
  "lexer0 = \<lparr>tokenKindId = 0, tokenKindNameMaxSize = 0, tokenKindSignatureMaxSize = 0,
     tokenKinds = []\<rparr>"

definition newKind :: "lexer \<Rightarrow> tokenName \<Rightarrow> tokenSignature \<Rightarrow> TokenKind \<times> lexer" where
  "newKind g name sig =
    (let tid = tokenKindId g;
         g = g\<lparr>tokenKindId := tokenKindId g + 1\<rparr>;
         g = (if int (length name) > tokenKindNameMaxSize g
              then g\<lparr>tokenKindNameMaxSize := int (length name)\<rparr> else g);
         g = (if int (length sig) > tokenKindSignatureMaxSize g
              then g\<lparr>tokenKindSignatureMaxSize := int (length sig)\<rparr> else g)
     in (\<lparr>Id' = tid, Name = name, Signature = sig\<rparr>, g))"

definition Ids :: "tokenKindMap \<Rightarrow> tokenId list" where
  "Ids tkm = map fst tkm"

text \<open>Reading a Go map at a missing key gives the zero value of the element type.\<close>

definition zeroKind :: TokenKind where
  "zeroKind = \<lparr>Id' = 0, Name = [], Signature = []\<rparr>"

definition Get :: "tokenKindMap \<Rightarrow> tokenId \<Rightarrow> TokenKind" where
  "Get tkm tid = (case map_of tkm tid of None \<Rightarrow> zeroKind | Some k \<Rightarrow> k)"

definition Add :: "lexer \<Rightarrow> tokenName \<Rightarrow> tokenSignature \<Rightarrow> lexer" where
  "Add g name sig =
    (case newKind g name sig of
       (kind, g') \<Rightarrow> g'\<lparr>tokenKinds := AList.update (Id' kind) kind (tokenKinds g')\<rparr>)"

definition Find :: "tokenKindMap \<Rightarrow> tokenSignature \<Rightarrow> tokenId list \<Rightarrow> tokenId list" where
  "Find tkm sig ids =
    (let ids = (if \<not> length ids > 0 then Ids tkm else ids)
     in filter (\<lambda>tid. Contains (Signature (Get tkm tid)) sig) ids)"

definition FindEx :: "tokenKindMap \<Rightarrow> tokenSignature \<Rightarrow> tokenId list \<Rightarrow> tokenId list" where
  "FindEx tkm sig ids =
    (let ids = (if \<not> length ids > 0 then Ids tkm else ids)
     in filter (\<lambda>tid. Compare (Signature (Get tkm tid)) sig) ids)"

section \<open>Tokenizing\<close>

text \<open>
  \<^verbatim>\<open>step - (step - len(line))\<close> is computed on Go's \<^verbatim>\<open>int\<close>; two's complement
  subtraction cancels exactly as it does on the integers.
\<close>

definition calcStep :: "lexer \<Rightarrow> string \<Rightarrow> tokenPosition" where
  "calcStep g line =
    (let step = tokenKindSignatureMaxSize g;
         step = step - (step - int (length line))
     in nat step)"

definition calcView :: "string \<Rightarrow> tokenPosition \<Rightarrow> tokenPosition \<Rightarrow> error + string" where
  "calcView line pos step =
    (if pos + step > length line
     then (if pos > length line then Inl SliceOutOfRange else Inr (drop pos line))
     else Inr (take step (drop pos line)))"

definition calcViewR :: "string \<Rightarrow> tokenPosition \<Rightarrow> tokenPosition \<Rightarrow> error + string" where
  "calcViewR line pos step =
    (let lo = uint64 (int pos - int step)
     in if lo > 0 then Inr []
        else if pos > length line then Inl SliceOutOfRange
        else Inr (drop (nat lo) (take pos line)))"

text \<open>
  The loop of \<^verbatim>\<open>isToken\<close>, on its variables \<open>matches\<close>, \<open>step\<close>, \<open>sig\<close>, \<open>view\<close>;
  leaving the loop runs the final \<^verbatim>\<open>FindEx\<close>.
\<close>

function isToken_loop ::
  "tokenKindMap \<Rightarrow> string \<Rightarrow> tokenId list \<Rightarrow> tokenPosition \<Rightarrow> tokenSignature \<Rightarrow> string
     \<Rightarrow> error + bool" where
  "isToken_loop tkm line matches step sig view =
    (if length matches = 0 \<or> view = '' '' then
       (let matches = Find tkm sig matches in
        if uint64 (int step - 1) = 0 then Inr (length (FindEx tkm sig matches) > 0)
        else
          (let step1 = uint64 (int step - 1) in
           if step1 > int (length line) then Inl SliceOutOfRange
           else
             (let step = nat step1
              in isToken_loop tkm line matches step (take step line)
                   (drop (step - 1) (take step line)))))
     else Inr (length (FindEx tkm sig matches) > 0))"
  by pat_completeness auto
termination
proof (relation "measure (\<lambda>(tkm, line, matches, step, sig, view).
                   if step = 0 then 18446744073709551616 else step)", goal_cases)
  case 1
  show ?case by simp
next
  case (2 tkm line matches step sig view m s1 s)
  show ?case
  proof (cases "step = 0")
    case True
    with 2 show ?thesis by (simp add: uint64_def)
  next
    case False
    then have "(int step - 1) mod 18446744073709551616 \<le> int step - 1"
      by (intro zmod_le_nonneg_dividend) simp
    with False 2 show ?thesis by (auto simp: uint64_def)
  qed
qed

declare isToken_loop.simps [simp del]

definition isToken :: "lexer \<Rightarrow> string \<Rightarrow> error + bool" where
  "isToken g line =
    (let step = calcStep g line in
     case calcViewR line step 1 of
       Inl e \<Rightarrow> Inl e
     | Inr view \<Rightarrow>
         (let sig = line;
              matches = Find (tokenKinds g) sig []
          in isToken_loop (tokenKinds g) line matches step sig view))"

text \<open>
  \<^verbatim>\<open>findToken\<close> recurses with no bound of its own, so it is a partial function:
  \<open>None\<close> is a recursion that never returns, \<open>Some (Inl e)\<close> a panic.
\<close>

partial_function (option) findToken ::
  "lexer \<Rightarrow> string \<Rightarrow> tokenPosition \<Rightarrow> tokenId list \<Rightarrow> (error + tokenId \<times> tokenSignature) option"
  where
  "findToken g line step ids =
    (case calcView line 0 step of
       Inl e \<Rightarrow> Some (Inl e)
     | Inr view \<Rightarrow>
        (let sig = view;
             ids = (if length ids = 0 then Find (tokenKinds g) sig ids else ids)
         in if length ids = 0 then Some (Inr (1, line))
            else if length ids = 1 then
              (let ids = FindEx (tokenKinds g) sig ids
               in if length ids = 0 then findToken g line (step + 1) ids
                  else Some (Inr (hd ids, sig)))
            else
              (case calcView line step 1 of
                 Inl e \<Rightarrow> Some (Inl e)
               | Inr ahead \<Rightarrow>
                  (case isToken g ahead of
                     Inl e \<Rightarrow> Some (Inl e)
                   | Inr tok \<Rightarrow>
                      if \<not> tok then
                        (let ids = FindEx (tokenKinds g) sig ids;
                             ids = (if length ids = 0 then ids @ [1] else ids)
                         in findToken g line step ids)
                      else findToken g line (step + 1) ids))))"

declare findToken.simps [code]

text \<open>
  The loop of \<^verbatim>\<open>findIdenToken\<close>, on \<open>step\<close>, \<open>view\<close> and \<open>lookAhead\<close>.
\<close>

function findIdenToken_loop ::
  "lexer \<Rightarrow> string \<Rightarrow> nat \<Rightarrow> string \<Rightarrow> string \<Rightarrow> error + tokenSignature" where
  "findIdenToken_loop g line step view lookAhead =
    (case isToken g lookAhead of
       Inl e \<Rightarrow> Inl e
     | Inr tok \<Rightarrow>
        if \<not> tok then
          (if step > length line then Inl SliceOutOfRange
           else
             (let view = take step line;
                  lookAhead = drop step line;
                  step = step + 1
              in if step > length line then Inr view
                 else findIdenToken_loop g line step view lookAhead))
        else Inr view)"
  by pat_completeness auto
termination
  by (relation "measure (\<lambda>(g, line, step, view, lookAhead). Suc (length line) - step)") auto

declare findIdenToken_loop.simps [simp del]

definition findIdenToken :: "lexer \<Rightarrow> string \<Rightarrow> error + tokenSignature" where
  "findIdenToken g line =
    (if length line = 1 then Inr line
     else if 1 > length line then Inl SliceOutOfRange
     else findIdenToken_loop g line 1 (take 1 line) (drop 1 line))"

subsection \<open>The graph of \<^verbatim>\<open>findToken\<close>\<close>

text \<open>
  The recursion of \<open>findToken\<close> as an inductive relation between its arguments and
  the result it returns: one rule per way through the body. \<open>narrow\<close> is the value
  of \<open>ids\<close> after the lookup at the top of the body, \<open>settle\<close> the one passed on
  when nothing recognizable follows the view.
\<close>

lemma len2D: "2 \<le> length xs \<Longrightarrow> xs \<noteq> [] \<and> length xs \<noteq> Suc 0"
  by (cases xs) auto

lemma calcView_0: "calcView line 0 step = Inr (take step line)"
  by (simp add: calcView_def)

definition narrow :: "lexer \<Rightarrow> string \<Rightarrow> nat \<Rightarrow> tokenId list \<Rightarrow> tokenId list" where
  "narrow g line step ids =
     (if length ids = 0 then Find (tokenKinds g) (take step line) ids else ids)"

definition settle :: "lexer \<Rightarrow> string \<Rightarrow> nat \<Rightarrow> tokenId list \<Rightarrow> tokenId list" where
  "settle g line step ids =
     (let ids = FindEx (tokenKinds g) (take step line) (narrow g line step ids)
      in if length ids = 0 then ids @ [1] else ids)"

inductive findToken_run ::
  "lexer \<Rightarrow> string \<Rightarrow> nat \<Rightarrow> tokenId list \<Rightarrow> error + tokenId \<times> tokenSignature \<Rightarrow> bool"
  for g :: lexer and line :: string where
  generic: "length (narrow g line step ids) = 0 \<Longrightarrow> findToken_run g line step ids (Inr (1, line))"
| grow: "length (narrow g line step ids) = 1 \<Longrightarrow>
     FindEx (tokenKinds g) (take step line) (narrow g line step ids) = [] \<Longrightarrow>
     findToken_run g line (step + 1) [] r \<Longrightarrow> findToken_run g line step ids r"
| exact: "length (narrow g line step ids) = 1 \<Longrightarrow>
     FindEx (tokenKinds g) (take step line) (narrow g line step ids) = ids' \<Longrightarrow> ids' \<noteq> [] \<Longrightarrow>
     findToken_run g line step ids (Inr (hd ids', take step line))"
| view_panic: "2 \<le> length (narrow g line step ids) \<Longrightarrow> calcView line step 1 = Inl e \<Longrightarrow>
     findToken_run g line step ids (Inl e)"
| isToken_panic: "2 \<le> length (narrow g line step ids) \<Longrightarrow> calcView line step 1 = Inr ahead \<Longrightarrow>
     isToken g ahead = Inl e \<Longrightarrow> findToken_run g line step ids (Inl e)"
| settle: "2 \<le> length (narrow g line step ids) \<Longrightarrow> calcView line step 1 = Inr ahead \<Longrightarrow>
     isToken g ahead = Inr False \<Longrightarrow>
     findToken_run g line step (settle g line step ids) r \<Longrightarrow> findToken_run g line step ids r"
| extend: "2 \<le> length (narrow g line step ids) \<Longrightarrow> calcView line step 1 = Inr ahead \<Longrightarrow>
     isToken g ahead = Inr True \<Longrightarrow>
     findToken_run g line (step + 1) (narrow g line step ids) r \<Longrightarrow> findToken_run g line step ids r"

definition findToken_body ::
  "(lexer \<Rightarrow> string \<Rightarrow> nat \<Rightarrow> tokenId list \<Rightarrow> (error + tokenId \<times> tokenSignature) option)
     \<Rightarrow> lexer \<Rightarrow> string \<Rightarrow> nat \<Rightarrow> tokenId list \<Rightarrow> (error + tokenId \<times> tokenSignature) option"
  where
  "findToken_body ft g line step ids =
    (if length (narrow g line step ids) = 0 then Some (Inr (1, line))
     else if length (narrow g line step ids) = 1 then
       (if FindEx (tokenKinds g) (take step line) (narrow g line step ids) = []
        then ft g line (step + 1) []
        else Some (Inr (hd (FindEx (tokenKinds g) (take step line) (narrow g line step ids)),
               take step line)))
     else
       (case calcView line step 1 of
          Inl e \<Rightarrow> Some (Inl e)
        | Inr ahead \<Rightarrow>
           (case isToken g ahead of
              Inl e \<Rightarrow> Some (Inl e)
            | Inr tok \<Rightarrow>
               if tok then ft g line (step + 1) (narrow g line step ids)
               else ft g line step (settle g line step ids))))"

lemma findToken_body_eq:
  "(case calcView line 0 step of
       Inl e \<Rightarrow> Some (Inl e)
     | Inr view \<Rightarrow>
        (let sig = view;
             ids = (if length ids = 0 then Find (tokenKinds g) sig ids else ids)
         in if length ids = 0 then Some (Inr (1, line))
            else if length ids = 1 then
              (let ids = FindEx (tokenKinds g) sig ids
               in if length ids = 0 then ft g line (step + 1) ids
                  else Some (Inr (hd ids, sig)))
            else
              (case calcView line step 1 of
                 Inl e \<Rightarrow> Some (Inl e)
               | Inr ahead \<Rightarrow>
                  (case isToken g ahead of
                     Inl e \<Rightarrow> Some (Inl e)
                   | Inr tok \<Rightarrow>
                      if \<not> tok then
                        (let ids = FindEx (tokenKinds g) sig ids;
                             ids = (if length ids = 0 then ids @ [1] else ids)
                         in ft g line step ids)
                      else ft g line (step + 1) ids))))
   = findToken_body ft g line step ids"
  by (simp add: findToken_body_def calcView_0 narrow_def settle_def Let_def split: sum.split)

lemma findToken_unfold: "findToken g line step ids = findToken_body findToken g line step ids"
  by (subst findToken.simps) (rule findToken_body_eq)

lemmas findToken_raw_induct = findToken.raw_induct [unfolded findToken_body_eq]

lemma findToken_run_complete:
  assumes "findToken g line step ids = Some r"
  shows "findToken_run g line step ids r"
proof (rule findToken_raw_induct [where P = findToken_run, OF _ assms])
  fix ft g line step ids r
  assume IH: "\<And>g line step ids r. ft g line step ids = Some r \<Longrightarrow> findToken_run g line step ids r"
    and body0: "findToken_body ft g line step ids = Some r"
  let ?ids1 = "narrow g line step ids"
  let ?view = "take step line"
  note body = body0 [unfolded findToken_body_def]
  consider (a) "length ?ids1 = 0" | (b) "length ?ids1 = 1" | (c) "2 \<le> length ?ids1"
    by linarith
  then show "findToken_run g line step ids r"
  proof cases
    case a
    with body have "r = Inr (1, line)" by simp
    with a show ?thesis by (simp add: findToken_run.generic)
  next
    case b
    show ?thesis
    proof (cases "FindEx (tokenKinds g) ?view ?ids1 = []")
      case True
      with body b have "ft g line (step + 1) [] = Some r" by simp
      from IH [OF this] b True show ?thesis by (auto intro: findToken_run.grow)
    next
      case False
      with body b have "r = Inr (hd (FindEx (tokenKinds g) ?view ?ids1), ?view)" by simp
      with b False show ?thesis using findToken_run.exact [OF b refl False] by simp
    qed
  next
    case c
    then have c': "length ?ids1 \<noteq> 0" "length ?ids1 \<noteq> 1" by auto
    show ?thesis
    proof (cases "calcView line step 1")
      case (Inl e)
      with body c' have "r = Inl e" by simp
      with c Inl show ?thesis by (simp add: findToken_run.view_panic)
    next
      case (Inr ahead)
      note ahead = this
      show ?thesis
      proof (cases "isToken g ahead")
        case (Inl e)
        with body c' ahead have "r = Inl e" by simp
        with c ahead Inl show ?thesis by (simp add: findToken_run.isToken_panic)
      next
        case (Inr tok)
        show ?thesis
        proof (cases tok)
          case True
          with body c' ahead Inr have "ft g line (step + 1) ?ids1 = Some r" by simp
          from IH [OF this] show ?thesis
            using findToken_run.extend [OF c ahead] Inr True by simp
        next
          case False
          with body c' ahead Inr have "ft g line step (settle g line step ids) = Some r" by simp
          from IH [OF this] show ?thesis
            using findToken_run.settle [OF c ahead] Inr False by simp
        qed
      qed
    qed
  qed
qed

lemma findToken_run_sound:
  "findToken_run g line step ids r \<Longrightarrow> findToken g line step ids = Some r"
proof (induction rule: findToken_run.induct)
  case (generic step ids)
  then show ?case by (subst findToken_unfold) (auto simp: findToken_body_def dest: len2D)
next
  case (grow step ids r)
  then show ?case by (subst findToken_unfold) (auto simp: findToken_body_def dest: len2D)
next
  case (exact step ids ids')
  then show ?case by (subst findToken_unfold) (auto simp: findToken_body_def)
next
  case (view_panic step ids e)
  then show ?case by (subst findToken_unfold) (auto simp: findToken_body_def dest: len2D)
next
  case (isToken_panic step ids ahead e)
  then show ?case by (subst findToken_unfold) (auto simp: findToken_body_def dest: len2D)
next
  case (settle step ids ahead r)
  then show ?case by (subst findToken_unfold) (auto simp: findToken_body_def dest: len2D)
next
  case (extend step ids ahead r)
  then show ?case by (subst findToken_unfold) (auto simp: findToken_body_def dest: len2D)
qed

lemma findToken_iff: "findToken g line step ids = Some r \<longleftrightarrow> findToken_run g line step ids r"
  using findToken_run_complete findToken_run_sound by blast

text \<open>What \<open>findToken\<close> and \<open>findIdenToken\<close> return is a prefix of their line.\<close>

lemma findToken_run_sig:
  "findToken_run g line step ids r \<Longrightarrow> r = Inr (tid, sig) \<Longrightarrow>
     sig = line \<or> (\<exists>n\<ge>step. sig = take n line)"
proof (induction arbitrary: tid sig rule: findToken_run.induct)
  case (grow step ids r)
  from grow.IH [OF grow.prems] show ?case by (auto intro: Suc_leD)
next
  case (extend step ids ahead r)
  from extend.IH [OF extend.prems] show ?case by (auto intro: Suc_leD)
qed auto

lemma findToken_sig_prefix:
  assumes "findToken g line step ids = Some (Inr (tid, sig))"
  shows "\<exists>n\<ge>step. sig = take n line"
proof -
  from assms have "findToken_run g line step ids (Inr (tid, sig))" by (simp add: findToken_iff)
  from findToken_run_sig [OF this refl] show ?thesis
  proof
    assume "sig = line"
    then have "sig = take (max step (length line)) line" by simp
    then show ?thesis by (metis max.cobounded1)
  qed
qed

lemma findToken_sig_nonempty:
  assumes "findToken g line step ids = Some (Inr (tid, sig))" "line \<noteq> []" "1 \<le> step"
  shows "sig \<noteq> []"
  using findToken_sig_prefix [OF assms(1)] assms(2,3) by auto

lemma findIdenToken_loop_prefix:
  "findIdenToken_loop g line step view lookAhead = Inr v \<Longrightarrow>
     v = view \<or> (\<exists>n\<ge>step. v = take n line)"
proof (induction g line step view lookAhead rule: findIdenToken_loop.induct)
  case (1 g line step view lookAhead)
  show ?case
  proof (cases "isToken g lookAhead")
    case (Inl e)
    with "1.prems" show ?thesis by (subst (asm) findIdenToken_loop.simps) simp
  next
    case (Inr tok)
    show ?thesis
    proof (cases tok)
      case True
      with Inr "1.prems" show ?thesis by (subst (asm) findIdenToken_loop.simps) simp
    next
      case False
      show ?thesis
      proof (cases "step > length line")
        case True
        with Inr False "1.prems" show ?thesis by (subst (asm) findIdenToken_loop.simps) simp
      next
        case le: False
        show ?thesis
        proof (cases "step + 1 > length line")
          case True
          with Inr False le "1.prems" have "v = take step line"
            by (subst (asm) findIdenToken_loop.simps) (simp add: Let_def)
          then show ?thesis by auto
        next
          case more: False
          with Inr False le "1.prems"
          have "findIdenToken_loop g line (step + 1) (take step line) (drop step line) = Inr v"
            by (subst (asm) findIdenToken_loop.simps) (simp add: Let_def)
          from "1.IH" [OF Inr _ _ refl refl refl _ this] False le more
          show ?thesis by (auto intro: Suc_leD)
        qed
      qed
    qed
  qed
qed

lemma findIdenToken_prefix:
  assumes "findIdenToken g line = Inr v"
  shows "\<exists>n\<ge>1. v = take n line"
proof (cases "length line = 1")
  case True
  with assms have "v = take 1 line" by (simp add: findIdenToken_def)
  then show ?thesis by blast
next
  case False
  with assms have l: "findIdenToken_loop g line 1 (take 1 line) (drop 1 line) = Inr v"
    by (simp add: findIdenToken_def split: if_splits)
  from findIdenToken_loop_prefix [OF l] show ?thesis by blast
qed

lemma findIdenToken_nonempty: "findIdenToken g line = Inr v \<Longrightarrow> line \<noteq> [] \<Longrightarrow> v \<noteq> []"
  using findIdenToken_prefix [of g line v] by auto

lemma TokenizeLine_advance:
  assumes "findToken g (drop pos line) (Suc 0) [] = Some (Inr (tid, sig0))"
    and "pos < length line"
    and "(if tid = 1 then findIdenToken g sig0 else Inr sig0) = Inr sig"
  shows "0 < length sig"
proof -
  from assms(2) have "drop pos line \<noteq> []" by simp
  from findToken_sig_nonempty [OF assms(1) this] have s0: "sig0 \<noteq> []" by simp
  show ?thesis
  proof (cases "tid = 1")
    case True
    with assms(3) have "findIdenToken g sig0 = Inr sig" by simp
    from findIdenToken_nonempty [OF this s0] show ?thesis by simp
  next
    case False
    with assms(3) s0 show ?thesis by simp
  qed
qed

text \<open>
  The loop of \<^verbatim>\<open>TokenizeLine\<close>, on \<open>pos\<close> and \<open>tokens\<close>. It ends because every
  text that \<open>findToken\<close> and \<open>findIdenToken\<close> return is non-empty; \<open>None\<close> is a
  \<open>findToken\<close> that never returns.
\<close>

function TokenizeLine_loop ::
  "lexer \<Rightarrow> string \<Rightarrow> tokenLineNo \<Rightarrow> tokenPosition \<Rightarrow> TokenObject list
     \<Rightarrow> (error + TokenObject list) option" where
  "TokenizeLine_loop g line lineNo pos tokens =
    (if pos < length line then
       (case findToken g (drop pos line) 1 [] of
          None \<Rightarrow> None
        | Some (Inl e) \<Rightarrow> Some (Inl e)
        | Some (Inr (tid, sig)) \<Rightarrow>
           (case (if tid = 1 then findIdenToken g sig else Inr sig) of
              Inl e \<Rightarrow> Some (Inl e)
            | Inr sig \<Rightarrow>
               TokenizeLine_loop g line lineNo (pos + length sig)
                 (tokens @ [New (Get (tokenKinds g) tid) lineNo (pos + 1) sig])))
     else Some (Inr tokens))"
  by pat_completeness auto
termination
proof (relation "measure (\<lambda>(g, line, lineNo, pos, tokens). length line - pos)", goal_cases)
  case 1
  show ?case by simp
next
  case 2
  then show ?case
    apply clarsimp
    apply (frule (2) TokenizeLine_advance)
    apply arith
    done
qed

declare TokenizeLine_loop.simps [simp del]

definition TokenizeLine :: "lexer \<Rightarrow> string \<Rightarrow> tokenLineNo \<Rightarrow> (error + TokenObject list) option" where
  "TokenizeLine g line lineNo = TokenizeLine_loop g line lineNo 0 []"



subsection \<open>The scanner of \<^verbatim>\<open>tokenFile\<close>\<close>

text \<open>
  \<^verbatim>\<open>newTokenFile\<close> wraps the opened file in \<^verbatim>\<open>bufio.NewScanner\<close>: the split
  function is \<^verbatim>\<open>bufio.ScanLines\<close> and the buffer grows to at most
  \<^verbatim>\<open>bufio.MaxScanTokenSize\<close> bytes. \<^verbatim>\<open>ScanLines\<close> is given the bytes in the
  buffer and whether the end of the file has been seen, and returns how far to advance
  and the next line, if the buffer holds one; it drops the newline and one carriage
  return before it.
\<close>

definition MaxScanTokenSize :: nat where
  "MaxScanTokenSize = 64 * 1024"

definition dropCR :: "string \<Rightarrow> string" where
  "dropCR data = (if data \<noteq> [] \<and> last data = CHR 0x0D then butlast data else data)"

definition ScanLines :: "string \<Rightarrow> bool \<Rightarrow> nat \<times> string option" where
  "ScanLines data atEOF =
    (if atEOF \<and> data = [] then (0, None)
     else if CHR 0x0A \<in> set data then
       (let i = length (takeWhile (\<lambda>c. c \<noteq> CHR 0x0A) data)
        in (i + 1, Some (dropCR (take i data))))
     else if atEOF then (length data, Some (dropCR data))
     else (0, None))"

text \<open>A line that \<^verbatim>\<open>ScanLines\<close> returns uses up at least one byte.\<close>

lemma ScanLines_advance:
  assumes "ScanLines buf atEOF = (advance, Some token)"
  shows "buf \<noteq> []" and "0 < advance"
proof -
  show "buf \<noteq> []"
    using assms by (cases buf) (simp_all add: ScanLines_def split: if_splits)
  then show "0 < advance"
    using assms by (auto simp: ScanLines_def Let_def split: if_splits)
qed

text \<open>
  The texts of the calls of \<^verbatim>\<open>Scan\<close> that return true, in order, on the bytes of
  the file that are still unread. \<^verbatim>\<open>Scan\<close> reads until \<^verbatim>\<open>ScanLines\<close> finds a
  line in the buffer, the file ends, or the buffer is full at
  \<^verbatim>\<open>MaxScanTokenSize\<close> bytes; on a full buffer without a line it sets
  \<^verbatim>\<open>ErrTooLong\<close> and returns false, as it does at the end of the file. The
  callers in \<^verbatim>\<open>tokens.go\<close> never read \<^verbatim>\<open>Err\<close>, so for them the file ends at
  a line of \<^verbatim>\<open>MaxScanTokenSize\<close> bytes or more.
\<close>

function Scan :: "string \<Rightarrow> string list" where
  "Scan data =
    (case ScanLines (take MaxScanTokenSize data) (length data < MaxScanTokenSize) of
       (advance, Some token) \<Rightarrow> token # Scan (drop advance data)
     | (advance, None) \<Rightarrow> [])"
  by pat_completeness auto
termination
proof (relation "measure length", goal_cases)
  case 1
  show ?case by simp
next
  case (2 data advance r token)
  then have "ScanLines (take MaxScanTokenSize data) (length data < MaxScanTokenSize)
      = (advance, Some token)"
    by simp
  from ScanLines_advance [OF this] have "data \<noteq> []" "0 < advance" by auto
  then show ?case by simp
qed

declare Scan.simps [simp del]

text \<open>
  \<^verbatim>\<open>TokenizeFile\<close> opens the file of the given name; here \<open>file\<close> is what
  \<^verbatim>\<open>os.Open\<close> finds there: the bytes of the file, or nothing, and then
  \<^verbatim>\<open>check\<close> panics. The loop counts the scanned lines from 1.
\<close>

fun TokenizeFile_loop ::
  "lexer \<Rightarrow> string list \<Rightarrow> tokenLineNo \<Rightarrow> TokenObject list \<Rightarrow> (error + TokenObject list) option"
  where
  "TokenizeFile_loop g [] lineNo tokens = Some (Inr tokens)"
| "TokenizeFile_loop g (text # file) lineNo tokens =
    (let lineNo = lineNo + 1 in
     case TokenizeLine g text lineNo of
       None \<Rightarrow> None
     | Some (Inl e) \<Rightarrow> Some (Inl e)
     | Some (Inr ts) \<Rightarrow> TokenizeFile_loop g file lineNo (tokens @ ts))"

definition TokenizeFile :: "lexer \<Rightarrow> string option \<Rightarrow> (error + TokenObject list) option" where
  "TokenizeFile g file =
    (case file of
       None \<Rightarrow> Some (Inl OpenFailed)
     | Some data \<Rightarrow> TokenizeFile_loop g (Scan data) 0 [])"

section \<open>Token loading\<close>

text \<open>\<^verbatim>\<open>strings.Index\<close>: the offset of the first occurrence, or -1.\<close>

fun strIndex :: "string \<Rightarrow> string \<Rightarrow> int" where
  "strIndex [] substr = (if substr = [] then 0 else - 1)"
| "strIndex (c # cs) substr =
    (if HasPrefix (c # cs) substr then 0
     else (let i = strIndex cs substr in if i < 0 then - 1 else i + 1))"

text \<open>\<^verbatim>\<open>strings.SplitN(s, sep, 2)\<close> for a non-empty separator: at most two parts.\<close>

definition SplitN2 :: "string \<Rightarrow> string \<Rightarrow> string list" where
  "SplitN2 s sep =
    (let i = strIndex s sep
     in if i < 0 then [s] else [take (nat i) s, drop (nat i + length sep) s])"

text \<open>\<^verbatim>\<open>strings.TrimRight(s, " ")\<close>.\<close>

definition TrimRight :: "string \<Rightarrow> string" where
  "TrimRight s = rev (dropWhile (\<lambda>c. c = CHR '' '') (rev s))"

definition findCommentPos :: "string \<Rightarrow> int" where
  "findCommentPos s = strIndex s ''#:''"

text \<open>
  \<^verbatim>\<open>justifyString\<close> is only called with the index that \<^verbatim>\<open>findCommentPos\<close> found
  in the same string, so \<^verbatim>\<open>s[:ind]\<close> is in range.
\<close>

definition justifyString :: "string \<Rightarrow> int \<Rightarrow> string" where
  "justifyString s ind =
    (if \<not> ind \<ge> 0 then s
     else (let temp = take (nat ind) s
           in if temp = ''  '' then '' '' else TrimRight temp))"

lemma HasPrefix_length: "HasPrefix s p \<Longrightarrow> length p \<le> length s"
  by (induction s p rule: HasPrefix.induct) auto

lemma strIndex_bound: "0 \<le> strIndex s p \<Longrightarrow> nat (strIndex s p) + length p \<le> length s"
proof (induction s)
  case Nil
  then show ?case by (simp split: if_splits)
next
  case (Cons c cs)
  show ?case
  proof (cases "HasPrefix (c # cs) p")
    case True
    then show ?thesis using HasPrefix_length [OF True] by simp
  next
    case False
    with Cons.prems have "0 \<le> strIndex cs p"
      by (simp add: Let_def split: if_splits)
    with Cons.IH False show ?thesis
      by (simp add: Let_def nat_add_distrib)
  qed
qed

lemma TrimRight_length: "length (TrimRight s) \<le> length s"
  unfolding TrimRight_def using length_dropWhile_le [of _ "rev s"] by simp

lemma justifyString_shorter:
  assumes "0 \<le> findCommentPos s"
  shows "length (justifyString s (findCommentPos s)) < length s"
proof -
  have b: "nat (findCommentPos s) + 2 \<le> length s"
    using strIndex_bound [of s "''#:''"] assms by (simp add: findCommentPos_def)
  have "length (TrimRight (take (nat (findCommentPos s)) s)) \<le> nat (findCommentPos s)"
    using TrimRight_length [of "take (nat (findCommentPos s)) s"] by simp
  with b assms show ?thesis
    by (auto simp: justifyString_def Let_def)
qed

text \<open>The loop of \<^verbatim>\<open>parseComment\<close>, on \<open>temp\<close> and \<open>ind\<close>.\<close>

function parseComment_loop :: "string \<Rightarrow> int \<Rightarrow> string" where
  "parseComment_loop temp ind =
    (if ind \<ge> 0 then
       (let ind = findCommentPos temp;
            temp = justifyString temp ind
        in parseComment_loop temp ind)
     else temp)"
  by pat_completeness auto
termination
proof (relation "measure (\<lambda>(temp, ind). 2 * length temp + (if ind \<ge> 0 then 1 else 0))",
    goal_cases)
  case 1
  show ?case by simp
next
  case (2 temp ind i t)
  show ?case
  proof (cases "0 \<le> findCommentPos temp")
    case True
    with 2 justifyString_shorter [OF True] show ?thesis by simp
  next
    case False
    with 2 show ?thesis by (simp add: justifyString_def)
  qed
qed

declare parseComment_loop.simps [simp del]

definition parseComment :: "string \<Rightarrow> string" where
  "parseComment line = parseComment_loop line (findCommentPos line)"

text \<open>
  \<^verbatim>\<open>parseLine\<close>. \<^verbatim>\<open>SplitN\<close> with a limit of 2 returns one or two parts, so the
  branch that panics on more than two is never taken.
\<close>

definition parseLine :: "string \<Rightarrow> string \<times> string" where
  "parseLine line =
    (let temp = map parseComment (SplitN2 line '' '')
     in if length temp = 1 then ([], []) else (temp ! 0, temp ! 1))"

text \<open>
  \<^verbatim>\<open>loadTokens\<close>, run once by \<^verbatim>\<open>init\<close> on the zero-valued globals; \<open>file\<close> is
  the list of lines that the scanner of the tokens file yields (\<open>Scan\<close> on its
  bytes).
\<close>

fun loadTokens_loop :: "lexer \<Rightarrow> string list \<Rightarrow> lexer" where
  "loadTokens_loop g [] = g"
| "loadTokens_loop g (text # file) =
    (case parseLine text of
       (name, seq) \<Rightarrow>
         if name = [] then loadTokens_loop g file
         else loadTokens_loop (Add g name seq) file)"

definition loadTokens :: "string list \<Rightarrow> lexer" where
  "loadTokens file =
    (let g = Add lexer0 ''WHTSPACE'' '' '';
         g = Add g ''GENIDEN'' ''&IDEN'';
         g = Add g ''GENTYPE'' ''&TYPE'';
         g = Add g ''GENOBJ'' ''&OBJ'';
         g = Add g ''NEWLINE'' [CHR 0x0A];
         g = Add g ''CRETURN'' [CHR 0x0D];
         g = Add g ''TABLINE'' [CHR 0x09]
     in loadTokens_loop g file)"

section \<open>The registry that \<open>loadTokens\<close> builds\<close>

text \<open>
  \<open>declared file\<close> are the (name, signature) pairs that \<open>loadTokens\<close> registers from
  the tokens file, \<open>reserved\<close> the seven it registers first. As long as the counter
  \<open>tokenKindId\<close> has not wrapped (at most 65536 registrations), the map holds the
  \<open>i\<close>-th registration under the id \<open>i\<close>, in this order: \<open>registry\<close>.
\<close>

definition declared :: "string list \<Rightarrow> (tokenName \<times> tokenSignature) list" where
  "declared file = filter (\<lambda>(name, seq). name \<noteq> []) (map parseLine file)"

definition reserved :: "(tokenName \<times> tokenSignature) list" where
  "reserved = [(''WHTSPACE'', '' ''), (''GENIDEN'', ''&IDEN''), (''GENTYPE'', ''&TYPE''),
     (''GENOBJ'', ''&OBJ''), (''NEWLINE'', [CHR 0x0A]), (''CRETURN'', [CHR 0x0D]),
     (''TABLINE'', [CHR 0x09])]"

definition AddAll :: "lexer \<Rightarrow> (tokenName \<times> tokenSignature) list \<Rightarrow> lexer" where
  "AddAll g regs = foldl (\<lambda>g (name, sig). Add g name sig) g regs"

definition kindAt :: "(tokenName \<times> tokenSignature) list \<Rightarrow> nat \<Rightarrow> TokenKind" where
  "kindAt regs i = \<lparr>Id' = of_nat i, Name = fst (regs ! i), Signature = snd (regs ! i)\<rparr>"

definition registry :: "(tokenName \<times> tokenSignature) list \<Rightarrow> tokenKindMap" where
  "registry regs = map (\<lambda>i. (of_nat i, kindAt regs i)) [0..<length regs]"

lemma loadTokens_loop_AddAll: "loadTokens_loop g file = AddAll g (declared file)"
  by (induction "file" arbitrary: g) (auto simp: declared_def AddAll_def split: prod.splits)

lemma loadTokens_AddAll: "loadTokens file = AddAll lexer0 (reserved @ declared file)"
  by (simp add: loadTokens_def loadTokens_loop_AddAll AddAll_def reserved_def Let_def)

lemma AddAll_snoc: "AddAll g (regs @ [(name, sig)]) = Add (AddAll g regs) name sig"
  by (simp add: AddAll_def)

lemma tokenKindId_Add: "tokenKindId (Add g name sig) = tokenKindId g + 1"
  by (simp add: Add_def newKind_def Let_def)

lemma tokenKinds_Add:
  "tokenKinds (Add g name sig) =
     AList.update (tokenKindId g) \<lparr>Id' = tokenKindId g, Name = name, Signature = sig\<rparr> (tokenKinds g)"
  by (simp add: Add_def newKind_def Let_def)

lemma tokenKindId_AddAll: "tokenKindId (AddAll lexer0 regs) = of_nat (length regs)"
  by (induction regs rule: rev_induct) (auto simp: AddAll_snoc tokenKindId_Add AddAll_def lexer0_def)

lemma update_fresh: "k \<notin> fst ` set al \<Longrightarrow> AList.update k v al = al @ [(k, v)]"
  by (induction al) auto

lemma of_nat_16_inj:
  "i < 65536 \<Longrightarrow> j < 65536 \<Longrightarrow> (of_nat i :: 16 word) = of_nat j \<Longrightarrow> i = j"
  by (simp add: word_of_nat_eq_iff take_bit_nat_eq_self)

lemma registry_snoc:
  "registry (regs @ [x]) = registry regs @ [(of_nat (length regs), kindAt (regs @ [x]) (length regs))]"
  by (simp add: registry_def kindAt_def nth_append)

lemma fst_registry: "fst ` set (registry regs) = of_nat ` {0..<length regs}"
  by (simp add: registry_def image_image)

lemma tokenKinds_AddAll:
  "length regs \<le> 65536 \<Longrightarrow> tokenKinds (AddAll lexer0 regs) = registry regs"
proof (induction regs rule: rev_induct)
  case Nil
  show ?case by (simp add: AddAll_def lexer0_def registry_def)
next
  case (snoc x regs)
  obtain name sig where x: "x = (name, sig)" by (cases x)
  from snoc.prems have len: "length regs < 65536" by simp
  with snoc.IH have IH: "tokenKinds (AddAll lexer0 regs) = registry regs" by simp
  have fresh: "(of_nat (length regs) :: tokenId) \<notin> fst ` set (registry regs)"
  proof
    assume "(of_nat (length regs) :: tokenId) \<in> fst ` set (registry regs)"
    then obtain i where "i < length regs" "(of_nat (length regs) :: tokenId) = of_nat i"
      by (auto simp: fst_registry)
    with len of_nat_16_inj [of "length regs" i] show False by simp
  qed
  show ?case
    unfolding x AddAll_snoc tokenKinds_Add tokenKindId_AddAll IH
    by (simp add: update_fresh [OF fresh] registry_snoc kindAt_def)
qed

lemma loadTokens_registry:
  assumes "length (declared file) \<le> 65529"
  shows "tokenKinds (loadTokens file) = registry (reserved @ declared file)"
  unfolding loadTokens_AddAll
  by (rule tokenKinds_AddAll) (use assms in \<open>simp add: reserved_def\<close>)

lemma distinct_registry:
  assumes "length regs \<le> 65536"
  shows "distinct (map fst (registry regs))"
proof -
  have "inj_on (of_nat :: nat \<Rightarrow> tokenId) (set [0..<length regs])"
    using assms by (auto intro!: inj_onI of_nat_16_inj)
  then have "distinct (map (of_nat :: nat \<Rightarrow> tokenId) [0..<length regs])"
    by (simp add: distinct_map)
  moreover have "map fst (registry regs) = map of_nat [0..<length regs]"
    by (simp add: registry_def comp_def)
  ultimately show ?thesis by simp
qed

lemma Get_registry:
  assumes "length regs \<le> 65536" "i < length regs"
  shows "Get (registry regs) (of_nat i) = kindAt regs i"
proof -
  have "(of_nat i, kindAt regs i) \<in> set (registry regs)"
    using assms(2) by (auto simp: registry_def)
  with distinct_registry [OF assms(1)] have "map_of (registry regs) (of_nat i) = Some (kindAt regs i)"
    by (rule map_of_is_SomeI)
  then show ?thesis by (simp add: Get_def)
qed

lemma Get_registry_unregistered:
  assumes "length regs \<le> unat tid"
  shows "Get (registry regs) tid = zeroKind"
proof -
  have "tid \<notin> fst ` set (registry regs)"
  proof
    assume "tid \<in> fst ` set (registry regs)"
    then obtain i where i: "i < length regs" "tid = of_nat i" by (auto simp: fst_registry)
    have "unat (of_nat i :: tokenId) \<le> i" by (simp add: unat_of_nat)
    with i assms show False by simp
  qed
  then have "map_of (registry regs) tid = None" by (simp add: map_of_eq_None_iff)
  then show ?thesis by (simp add: Get_def)
qed

definition reservedKinds :: "TokenKind list" where
  "reservedKinds =
    [\<lparr>Id' = 0, Name = ''WHTSPACE'', Signature = '' ''\<rparr>,
     \<lparr>Id' = 1, Name = ''GENIDEN'', Signature = ''&IDEN''\<rparr>,
     \<lparr>Id' = 2, Name = ''GENTYPE'', Signature = ''&TYPE''\<rparr>,
     \<lparr>Id' = 3, Name = ''GENOBJ'', Signature = ''&OBJ''\<rparr>,
     \<lparr>Id' = 4, Name = ''NEWLINE'', Signature = [CHR 0x0A]\<rparr>,
     \<lparr>Id' = 5, Name = ''CRETURN'', Signature = [CHR 0x0D]\<rparr>,
     \<lparr>Id' = 6, Name = ''TABLINE'', Signature = [CHR 0x09]\<rparr>]"

lemma declared_append: "declared (file @ rest) = declared file @ declared rest"
  by (simp add: declared_def)

lemma length_reserved: "length reserved = 7"
  by (simp add: reserved_def)

lemma unat_of_nat_16: "i < 65536 \<Longrightarrow> unat (of_nat i :: tokenId) = i"
  by (simp add: unat_of_nat)

lemma registry_keys: "map fst (registry regs) = map of_nat [0..<length regs]"
  by (simp add: registry_def comp_def)

lemma registry_unat_keys:
  assumes "length regs \<le> 65536"
  shows "map (unat \<circ> fst) (registry regs) = [0..<length regs]"
proof -
  have "map (unat \<circ> fst) (registry regs) = map (\<lambda>i. unat (of_nat i :: tokenId)) [0..<length regs]"
    by (simp add: registry_def comp_def)
  also have "\<dots> = map (\<lambda>i. i) [0..<length regs]"
    using assms by (intro map_cong refl unat_of_nat_16) simp
  finally show ?thesis by simp
qed

lemma upt_shift: "[a..<a + b] = map (\<lambda>j. a + j) [0..<b]"
  by (induction b) simp_all

lemma upt_split: "[0..<a + b] = [0..<a] @ map (\<lambda>j. a + j) [0..<b]"
  using upt_add_eq_append [of 0 a b] by (simp only: upt_shift [symmetric])

lemma registry_append:
  "registry (regs @ rest) =
     registry regs @ map (\<lambda>j. (of_nat (length regs + j), kindAt rest j
        \<lparr>Id' := of_nat (length regs + j)\<rparr>)) [0..<length rest]"
  unfolding registry_def length_append upt_split
  by (simp add: kindAt_def nth_append comp_def)

lemma registry_reserved: "map snd (registry reserved) = reservedKinds"
  by code_simp

lemma loadTokens_snoc:
  assumes "parseLine text = (name, seq)" "name \<noteq> []"
  shows "loadTokens (file @ [text]) = Add (loadTokens file) name seq"
proof -
  from assms have "declared (file @ [text]) = declared file @ [(name, seq)]"
    by (simp add: declared_def)
  then show ?thesis
    by (simp add: loadTokens_AddAll AddAll_snoc [symmetric])
qed

lemma tokenKindId_loadTokens:
  "tokenKindId (loadTokens file) = of_nat (7 + length (declared file))"
  by (simp add: loadTokens_AddAll tokenKindId_AddAll length_reserved)

lemma Get_Add_same:
  "Get (tokenKinds (Add g name sig)) (tokenKindId g)
     = \<lparr>Id' = tokenKindId g, Name = name, Signature = sig\<rparr>"
  by (simp add: tokenKinds_Add Get_def update_conv')

lemma parseLine_A_b: "parseLine ''A b'' = (''A'', ''b'')"
  by code_simp

lemma declared_replicate_A_b: "declared (replicate n ''A b'') = replicate n (''A'', ''b'')"
  by (simp add: declared_def parseLine_A_b)

lemma declared_EQ_EQEQ: "declared [''EQ ='', ''EQEQ ==''] = [(''EQ'', ''=''), (''EQEQ'', ''=='')]"
  by code_simp

lemma declared_Nil: "declared [] = []"
  by (simp add: declared_def)

section \<open>When \<open>findToken\<close> does not return\<close>

text \<open>
  Once the view is the whole line, a line that is a proper part of exactly one
  signature sends \<open>findToken\<close> into the same call with a larger \<open>step\<close>, for ever.
\<close>

lemma findToken_run_stuck:
  assumes f: "Find (tokenKinds g) line [] = [k]"
    and x: "FindEx (tokenKinds g) line [k] = []"
  shows "findToken_run g line step ids r \<Longrightarrow> length line \<le> step \<Longrightarrow> ids = [] \<Longrightarrow> False"
proof (induction rule: findToken_run.induct)
  case (generic step ids)
  with f show ?case by (simp add: narrow_def)
next
  case (grow step ids r)
  then show ?case by simp
next
  case (exact step ids ids')
  with f x show ?case by (simp add: narrow_def)
qed (use f in \<open>simp_all add: narrow_def\<close>)

lemma findToken_diverges:
  assumes "Find (tokenKinds g) line [] = [k]"
    and "FindEx (tokenKinds g) line [k] = []"
    and "length line \<le> step"
  shows "findToken g line step [] = None"
proof (cases "findToken g line step []")
  case (Some r)
  then have "findToken_run g line step [] r" by (simp add: findToken_iff)
  from findToken_run_stuck [OF assms(1,2) this assms(3)] show ?thesis by simp
qed

lemma calcStep_length: "calcStep g line = length line"
  by (simp add: calcStep_def)

section \<open>What \<open>findToken\<close> returns\<close>

text \<open>
  A result of \<open>findToken\<close> is the generic id 1 with the whole line, or an id whose
  registered signature is the returned text, a prefix of the line.
\<close>

lemma FindEx_member:
  "tid \<in> set (FindEx tkm sig ids) \<Longrightarrow> Signature (Get tkm tid) = sig"
  by (simp add: FindEx_def Compare_def Let_def)

lemma findToken_run_exact:
  "findToken_run g line step ids r \<Longrightarrow> r = Inr (tid, sig) \<Longrightarrow>
     (tid = 1 \<and> sig = line) \<or> (Signature (Get (tokenKinds g) tid) = sig \<and> (\<exists>n. sig = take n line))"
proof (induction arbitrary: tid sig rule: findToken_run.induct)
  case (exact step ids ids')
  from exact.hyps(3) have "hd ids' \<in> set ids'" by simp
  with exact.hyps(2) have "Signature (Get (tokenKinds g) (hd ids')) = take step line"
    by (auto dest: FindEx_member)
  moreover from exact.prems have "tid = hd ids'" "sig = take step line" by simp_all
  ultimately show ?case by blast
qed auto

lemma findToken_TYPE: "findToken (loadTokens []) ''&TYPE'' 1 [] = Some (Inr (2, ''&TYPE''))"
  by code_simp

section \<open>Lookups in a loaded registry\<close>

text \<open>
  \<open>Find\<close> and \<open>FindEx\<close> on the registry of a list of registrations, by the index of
  the registration, and \<open>isToken\<close> on a text of one character and on the empty text.
\<close>

lemma Ids_registry: "Ids (registry regs) = map of_nat [0..<length regs]"
  by (simp add: Ids_def registry_keys)

lemma Signature_Get_registry:
  "length regs \<le> 65536 \<Longrightarrow> i < length regs \<Longrightarrow>
     Signature (Get (registry regs) (of_nat i)) = snd (regs ! i)"
  by (simp add: Get_registry kindAt_def)

lemma Find_registry:
  assumes "length regs \<le> 65536"
  shows "Find (registry regs) sig []
     = map of_nat (filter (\<lambda>i. Contains (snd (regs ! i)) sig) [0..<length regs])"
proof -
  have "filter (\<lambda>tid. Contains (Signature (Get (registry regs) tid)) sig)
          (map of_nat [0..<length regs])
      = map of_nat (filter (\<lambda>i. Contains (Signature (Get (registry regs) (of_nat i))) sig)
          [0..<length regs])"
    by (simp add: filter_map comp_def)
  also have "\<dots> = map of_nat (filter (\<lambda>i. Contains (snd (regs ! i)) sig) [0..<length regs])"
    using assms by (intro arg_cong [where f = "map of_nat"] filter_cong refl)
      (simp add: Signature_Get_registry)
  finally show ?thesis by (simp add: Find_def Ids_registry)
qed

lemma FindEx_nonempty_ids:
  "ids \<noteq> [] \<Longrightarrow> FindEx tkm sig ids = filter (\<lambda>tid. Signature (Get tkm tid) = sig) ids"
  by (simp add: FindEx_def Compare_def)

lemma FindEx_registry_of_nat:
  assumes "length regs \<le> 65536" "set is \<subseteq> {0..<length regs}" "is \<noteq> []"
  shows "FindEx (registry regs) sig (map of_nat is)
     = map of_nat (filter (\<lambda>i. snd (regs ! i) = sig) is)"
proof -
  have "filter (\<lambda>tid. Signature (Get (registry regs) tid) = sig) (map of_nat is)
      = map of_nat (filter (\<lambda>i. Signature (Get (registry regs) (of_nat i)) = sig) is)"
    by (simp add: filter_map comp_def)
  also have "\<dots> = map of_nat (filter (\<lambda>i. snd (regs ! i) = sig) is)"
    using assms(1,2) by (intro arg_cong [where f = "map of_nat"] filter_cong refl)
      (auto simp: Signature_Get_registry)
  finally show ?thesis using assms(3) by (simp add: FindEx_nonempty_ids)
qed

lemma filter_nth_upt: "map ((!) rs) (filter (\<lambda>k. Q (rs ! k)) [0..<length rs]) = filter Q rs"
proof -
  have "filter Q (map ((!) rs) [0..<length rs]) = map ((!) rs) (filter (\<lambda>k. Q (rs ! k)) [0..<length rs])"
    by (simp add: filter_map comp_def)
  then show ?thesis by (simp add: map_nth)
qed

lemma length_filter_nth_upt:
  "length (filter (\<lambda>k. Q (rs ! k)) [0..<length rs]) = length (filter Q rs)"
  using arg_cong [OF filter_nth_upt [of rs Q], of length] by simp

lemma strContains_Nil [simp]: "strContains s []"
  by (cases s) simp_all


lemma reserved_no_eqeq: "p \<in> set reserved \<Longrightarrow> snd p \<noteq> ''==''"
  by (auto simp: reserved_def)

lemma reserved_no_empty: "p \<in> set reserved \<Longrightarrow> snd p \<noteq> []"
  by (auto simp: reserved_def)

lemma length_one: "length xs = 1 \<Longrightarrow> \<exists>x. xs = [x]"
  by (cases xs) auto

lemma isToken_single_char:
  assumes "Find (tokenKinds g) [c] [] \<noteq> []" "c \<noteq> CHR '' ''"
  shows "isToken g [c] = Inr (FindEx (tokenKinds g) [c] (Find (tokenKinds g) [c] []) \<noteq> [])"
proof -
  have v: "calcViewR [c] (Suc 0) (Suc 0) = Inr [c]"
    by (simp add: calcViewR_def uint64_def)
  have l: "isToken_loop (tokenKinds g) [c] (Find (tokenKinds g) [c] []) (Suc 0) [c] [c]
      = Inr (FindEx (tokenKinds g) [c] (Find (tokenKinds g) [c] []) \<noteq> [])"
    using assms by (subst isToken_loop.simps) simp
  show ?thesis
    unfolding isToken_def calcStep_length
    by (simp add: v l Let_def)
qed

lemma isToken_empty:
  assumes "Find (tokenKinds g) [] [] \<noteq> []"
  shows "isToken g [] = Inr (FindEx (tokenKinds g) [] (Find (tokenKinds g) [] []) \<noteq> [])"
proof -
  have v: "calcViewR [] 0 (Suc 0) = Inr []"
    by (simp add: calcViewR_def uint64_def)
  have l: "isToken_loop (tokenKinds g) [] (Find (tokenKinds g) [] []) 0 [] []
      = Inr (FindEx (tokenKinds g) [] (Find (tokenKinds g) [] []) \<noteq> [])"
    using assms by (subst isToken_loop.simps) simp
  show ?thesis
    unfolding isToken_def calcStep_length
    by (simp add: v l Let_def)
qed


lemma Contains_eq_eq [simp]: "Contains ''='' ''=''" "Contains ''=='' ''=''"
  by (simp_all add: Contains_def)

section \<open>What \<open>TokenizeLine\<close> returns\<close>




section \<open>Tokenizing several lines\<close>



definition onTokens ::
  "(TokenObject \<Rightarrow> TokenObject) \<Rightarrow> (error + TokenObject list) option \<Rightarrow> (error + TokenObject list) option"
  where
  "onTokens f r = map_option (map_sum (\<lambda>e. e) (map f)) r"

lemma onTokens_simps [simp]:
  "onTokens f None = None"
  "onTokens f (Some (Inl e)) = Some (Inl e)"
  "onTokens f (Some (Inr ts)) = Some (Inr (map f ts))"
  by (simp_all add: onTokens_def)





definition prepend ::
  "TokenObject list \<Rightarrow> (error + TokenObject list) option \<Rightarrow> (error + TokenObject list) option"
  where
  "prepend tokens r = map_option (map_sum (\<lambda>e. e) ((@) tokens)) r"

lemma prepend_simps [simp]:
  "prepend tokens None = None"
  "prepend tokens (Some (Inl e)) = Some (Inl e)"
  "prepend tokens (Some (Inr ts)) = Some (Inr (tokens @ ts))"
  by (simp_all add: prepend_def)

lemma prepend_Nil [simp]: "prepend [] r = r"
proof (cases r)
  case None
  then show ?thesis by simp
next
  case (Some a)
  then show ?thesis by (cases a) simp_all
qed





section \<open>Tokenizing a file\<close>


lemma TokenizeFile_open_fails: "TokenizeFile g None = Some (Inl OpenFailed)"
  by (simp add: TokenizeFile_def)




text \<open>
  \<open>unlines\<close> is the file that holds the given lines, each followed by a newline.
  The scanner yields a line without a newline in it and shorter than
  \<open>MaxScanTokenSize\<close> with one trailing carriage return dropped, and nothing from a
  line of \<open>MaxScanTokenSize\<close> bytes or more on.
\<close>

definition unlines :: "string list \<Rightarrow> string" where
  "unlines lines = concat (map (\<lambda>line. line @ [CHR 0x0A]) lines)"

lemma unlines_simps [simp]:
  "unlines [] = []"
  "unlines (line # lines) = line @ CHR 0x0A # unlines lines"
  by (simp_all add: unlines_def)








section \<open>Maximal munch on \<open>==\<close>\<close>

text \<open>
  Where the registry is built by the loader from at most 65529 declarations, \<open>=\<close> is
  declared, exactly one declared kind has the signature \<open>==\<close> and no declared kind
  has the empty signature, the line \<open>==\<close> is one token: of that kind, the \<open>j\<close>-th
  declared one, with id \<open>7 + j\<close>, at position 1 and with the text \<open>==\<close>.
\<close>

lemma TokenizeLine_maximal_munch:
  assumes bound: "length (declared file) \<le> 65529"
    and eq: "''='' \<in> snd ` set (declared file)"
    and eqeq: "length (filter (\<lambda>(name, seq). seq = ''=='') (declared file)) = 1"
    and nonempty: "[] \<notin> snd ` set (declared file)"
  shows "\<exists>j<length (declared file). snd (declared file ! j) = ''=='' \<and>
     TokenizeLine (loadTokens file) ''=='' lineNo
       = Some (Inr [\<lparr>Kind = \<lparr>Id' = of_nat (7 + j), Name = fst (declared file ! j),
                             Signature = ''==''\<rparr>,
                     LineNo = lineNo, Position = 1, Symbol = ''==''\<rparr>])"
proof -
  let ?d = "declared file"
  let ?g = "loadTokens file"
  define regs where "regs = reserved @ ?d"
  define K where "K = registry regs"
  have reg: "tokenKinds ?g = K"
    unfolding K_def regs_def by (rule loadTokens_registry [OF bound])
  have n: "length regs = 7 + length ?d" by (simp add: regs_def length_reserved)
  have len: "length regs \<le> 65536" using bound by (simp add: n)
  have decl: "regs ! (7 + k) = ?d ! k" for k
    by (simp add: regs_def nth_append length_reserved)
  have res: "regs ! i \<in> set reserved" if "i < 7" for i
    using that by (simp add: regs_def nth_append length_reserved)
  \<comment> \<open>the registration of \<open>=\<close>\<close>
  from eq obtain je where je: "je < length ?d" "snd (?d ! je) = ''=''"
    by (auto simp: in_set_conv_nth)
  define ie where "ie = 7 + je"
  have ie: "ie < length regs" "snd (regs ! ie) = ''=''"
    using je by (simp_all add: ie_def n decl)
  \<comment> \<open>the one registration of \<open>==\<close>\<close>
  have "length (filter (\<lambda>i. snd (regs ! i) = ''=='') [0..<length regs])
      = length (filter (\<lambda>p. snd p = ''=='') regs)"
    by (rule length_filter_nth_upt)
  also have "\<dots> = length (filter (\<lambda>p. snd p = ''=='') reserved)
      + length (filter (\<lambda>p. snd p = ''=='') ?d)"
    by (simp add: regs_def)
  also have "filter (\<lambda>p. snd p = ''=='') reserved = []"
    by (auto simp: filter_empty_conv dest: reserved_no_eqeq)
  also have "length (filter (\<lambda>p. snd p = ''=='') ?d) = 1"
    using eqeq by (simp add: case_prod_unfold)
  finally have "length (filter (\<lambda>i. snd (regs ! i) = ''=='') [0..<length regs]) = 1" by simp
  from length_one [OF this]
  obtain i0 where one: "filter (\<lambda>i. snd (regs ! i) = ''=='') [0..<length regs] = [i0]"
    by blast
  then have "i0 \<in> set (filter (\<lambda>i. snd (regs ! i) = ''=='') [0..<length regs])" by simp
  then have i0: "i0 < length regs" "snd (regs ! i0) = ''==''" by simp_all
  have i07: "7 \<le> i0"
  proof (rule ccontr)
    assume "\<not> 7 \<le> i0"
    then have "regs ! i0 \<in> set reserved" by (intro res) simp
    from reserved_no_eqeq [OF this] i0(2) show False by simp
  qed
  define j where "j = i0 - 7"
  have j: "j < length ?d" "regs ! i0 = ?d ! j" "i0 = 7 + j"
    using i0(1) i07 decl [of j] by (simp_all add: j_def n)
  \<comment> \<open>the candidates for the view \<open>=\<close>\<close>
  define I1 where "I1 = filter (\<lambda>i. Contains (snd (regs ! i)) ''='') [0..<length regs]"
  have ids1: "Find K ''='' [] = map of_nat I1"
    unfolding I1_def K_def by (rule Find_registry [OF len])
  have I1_sub: "set I1 \<subseteq> {0..<length regs}" by (auto simp: I1_def)
  have I1_mem: "ie \<in> set I1" "i0 \<in> set I1"
    using ie i0 by (simp_all add: I1_def)
  have "ie \<noteq> i0" using ie(2) i0(2) by auto
  with I1_mem have "card {ie, i0} \<le> card (set I1)"
    by (intro card_mono) simp_all
  moreover have "distinct I1" by (simp add: I1_def)
  ultimately have I1_len: "2 \<le> length I1"
    using \<open>ie \<noteq> i0\<close> by (simp add: distinct_card)
  then have I1_ne: "I1 \<noteq> []" by auto
  note FindEx_K = FindEx_registry_of_nat [OF len, folded K_def]
  have x_eq: "FindEx K ''='' (map of_nat I1) \<noteq> []"
  proof -
    have "filter (\<lambda>i. snd (regs ! i) = ''='') I1 \<noteq> []"
      using I1_mem(1) ie(2) by (auto simp: filter_empty_conv)
    then show ?thesis by (simp add: FindEx_K [OF I1_sub I1_ne])
  qed
  have x_eqeq: "FindEx K ''=='' (map of_nat I1) = [of_nat i0]"
  proof -
    have "filter (\<lambda>i. snd (regs ! i) = ''=='') I1
        = filter (\<lambda>i. snd (regs ! i) = ''=='') [0..<length regs]"
      unfolding I1_def filter_filter by (rule filter_cong) auto
    then have "filter (\<lambda>i. snd (regs ! i) = ''=='') I1 = [i0]" by (simp only: one)
    then show ?thesis by (simp add: FindEx_K [OF I1_sub I1_ne])
  qed
  have x_one: "FindEx K ''=='' [of_nat i0] = [of_nat i0]"
    using FindEx_K [of "[i0]" "''==''"] i0 by simp
  \<comment> \<open>the two lookahead checks\<close>
  have tok_eq: "isToken ?g ''='' = Inr True"
    using isToken_single_char [of ?g "CHR ''=''"] x_eq I1_ne by (simp add: reg ids1)
  have all: "Find K [] [] = map of_nat [0..<length regs]"
    unfolding K_def by (simp add: Find_registry [OF len] Contains_def)
  have all_ne: "[0..<length regs] \<noteq> []" by (simp add: n)
  have "filter (\<lambda>i. snd (regs ! i) = []) [0..<length regs] = []"
  proof -
    have "snd (regs ! i) \<noteq> []" if "i < length regs" for i
    proof -
      from that have "regs ! i \<in> set regs" by (rule nth_mem)
      then show ?thesis
        using nonempty by (auto simp: regs_def image_iff dest: reserved_no_empty)
    qed
    then show ?thesis by (auto simp: filter_empty_conv)
  qed
  then have x_nil: "FindEx K [] (map of_nat [0..<length regs]) = []"
    using FindEx_K [OF _ all_ne, of "[]"] by simp
  have tok_nil: "isToken ?g [] = Inr False"
    using isToken_empty [of ?g] all_ne by (simp add: reg all x_nil)
  \<comment> \<open>the run of \<open>findToken\<close>\<close>
  have t1: "take (Suc 0) ''=='' = ''=''" and t2: "take (Suc 0 + 1) ''=='' = ''==''"
    by simp_all
  have n1: "narrow ?g ''=='' (Suc 0) [] = map of_nat I1"
    by (simp add: narrow_def reg ids1)
  have n2: "narrow ?g ''=='' (Suc 0 + 1) (map of_nat I1) = map of_nat I1"
    using I1_ne by (simp add: narrow_def)
  have s2: "settle ?g ''=='' (Suc 0 + 1) (map of_nat I1) = [of_nat i0]"
    unfolding settle_def n2 t2 reg x_eqeq by simp
  have n3: "narrow ?g ''=='' (Suc 0 + 1) [of_nat i0] = [of_nat i0]"
    by (simp add: narrow_def)
  have l1: "2 \<le> length (map of_nat I1 :: tokenId list)"
    using I1_len by simp
  have v1: "calcView ''=='' (Suc 0) 1 = Inr ''=''" by (simp add: calcView_def)
  have v2: "calcView ''=='' (Suc 0 + 1) 1 = Inr []" by (simp add: calcView_def)
  have "findToken_run ?g ''=='' (Suc 0 + 1) [of_nat i0] (Inr (hd [of_nat i0], take (Suc 0 + 1) ''==''))"
  proof (rule findToken_run.exact)
    show "length (narrow ?g ''=='' (Suc 0 + 1) [of_nat i0]) = 1" by (simp only: n3) simp
    show "FindEx (tokenKinds ?g) (take (Suc 0 + 1) ''=='') (narrow ?g ''=='' (Suc 0 + 1) [of_nat i0])
        = [of_nat i0]"
      by (simp only: n3 t2 reg x_one)
    show "[of_nat i0 :: tokenId] \<noteq> []" by simp
  qed
  then have r3: "findToken_run ?g ''=='' (Suc 0 + 1) [of_nat i0] (Inr (of_nat i0, ''==''))"
    by (simp only: t2 list.sel)
  have r2: "findToken_run ?g ''=='' (Suc 0 + 1) (map of_nat I1) (Inr (of_nat i0, ''==''))"
  proof (rule findToken_run.settle)
    show "2 \<le> length (narrow ?g ''=='' (Suc 0 + 1) (map of_nat I1))" by (simp only: n2 l1)
    show "calcView ''=='' (Suc 0 + 1) 1 = Inr []" by (rule v2)
    show "isToken ?g [] = Inr False" by (rule tok_nil)
    show "findToken_run ?g ''=='' (Suc 0 + 1) (settle ?g ''=='' (Suc 0 + 1) (map of_nat I1))
        (Inr (of_nat i0, ''==''))"
      by (simp only: s2 r3)
  qed
  have r1: "findToken_run ?g ''=='' (Suc 0) [] (Inr (of_nat i0, ''==''))"
  proof (rule findToken_run.extend)
    show "2 \<le> length (narrow ?g ''=='' (Suc 0) [])" by (simp only: n1 l1)
    show "calcView ''=='' (Suc 0) 1 = Inr ''=''" by (rule v1)
    show "isToken ?g ''='' = Inr True" by (rule tok_eq)
    show "findToken_run ?g ''=='' (Suc 0 + 1) (narrow ?g ''=='' (Suc 0) []) (Inr (of_nat i0, ''==''))"
      by (simp only: n1 r2)
  qed
  have ft: "findToken ?g ''=='' (Suc 0) [] = Some (Inr (of_nat i0, ''==''))"
    by (rule findToken_run_sound [OF r1])
  \<comment> \<open>the loop of \<open>TokenizeLine\<close>\<close>
  have "(of_nat i0 :: tokenId) \<noteq> of_nat 1"
    using of_nat_16_inj [of i0 1] i0(1) i07 len by auto
  then have not1: "(of_nat i0 :: tokenId) \<noteq> 1" by simp
  have kind: "Get (tokenKinds ?g) (of_nat i0)
      = \<lparr>Id' = of_nat (7 + j), Name = fst (?d ! j), Signature = ''==''\<rparr>"
    using Get_registry [OF len i0(1)] i0(2) j by (simp add: reg K_def kindAt_def)
  have "TokenizeLine ?g ''=='' lineNo
      = TokenizeLine_loop ?g ''=='' lineNo 2
          [New (Get (tokenKinds ?g) (of_nat i0)) lineNo 1 ''=='']"
    unfolding TokenizeLine_def
    by (subst TokenizeLine_loop.simps) (simp add: ft not1 numeral_2_eq_2)
  also have "\<dots> = Some (Inr [New (Get (tokenKinds ?g) (of_nat i0)) lineNo 1 ''==''])"
    by (subst TokenizeLine_loop.simps) simp
  finally have "TokenizeLine ?g ''=='' lineNo
      = Some (Inr [\<lparr>Kind = \<lparr>Id' = of_nat (7 + j), Name = fst (?d ! j), Signature = ''==''\<rparr>,
                     LineNo = lineNo, Position = 1, Symbol = ''==''\<rparr>])"
    by (simp add: kind New_def)
  with j(1) j(2) i0(2) show ?thesis by auto
qed

text \<open>The tokens file with the two lines \<open>EQ =\<close> and \<open>EQEQ ==\<close> is such a file.\<close>

lemma TokenizeLine_maximal_munch_example:
  "length (declared [''EQ ='', ''EQEQ ==''])  \<le> 65529
   \<and> ''='' \<in> snd ` set (declared [''EQ ='', ''EQEQ ==''])
   \<and> length (filter (\<lambda>(name, seq). seq = ''=='') (declared [''EQ ='', ''EQEQ ==''])) = 1
   \<and> [] \<notin> snd ` set (declared [''EQ ='', ''EQEQ ==''])
   \<and> TokenizeLine (loadTokens [''EQ ='', ''EQEQ ==''])  ''=='' 0
       = Some (Inr [\<lparr>Kind = \<lparr>Id' = 8, Name = ''EQEQ'', Signature = ''==''\<rparr>,
                     LineNo = 0, Position = 1, Symbol = ''==''\<rparr>])"
proof -
  let ?F = "[''EQ ='', ''EQEQ =='']"
  note d = declared_EQ_EQEQ
  have h1: "length (declared ?F) \<le> 65529" by (simp add: d)
  have h2: "''='' \<in> snd ` set (declared ?F)" by (simp add: d)
  have h3: "length (filter (\<lambda>(name, seq). seq = ''=='') (declared ?F)) = 1" by (simp add: d)
  have h4: "[] \<notin> snd ` set (declared ?F)" by (simp add: d)
  from TokenizeLine_maximal_munch [OF h1 h2 h3 h4, of 0] obtain j where
    j: "j < length (declared ?F)" "snd (declared ?F ! j) = ''==''"
    and t: "TokenizeLine (loadTokens ?F) ''=='' 0
       = Some (Inr [\<lparr>Kind = \<lparr>Id' = of_nat (7 + j), Name = fst (declared ?F ! j),
                             Signature = ''==''\<rparr>,
                     LineNo = 0, Position = 1, Symbol = ''==''\<rparr>])"
    by blast
  from j have "j = 1" by (cases j) (simp_all add: d)
  with t have "TokenizeLine (loadTokens ?F) ''=='' 0
       = Some (Inr [\<lparr>Kind = \<lparr>Id' = 8, Name = ''EQEQ'', Signature = ''==''\<rparr>,
                     LineNo = 0, Position = 1, Symbol = ''==''\<rparr>])"
    by (simp add: d)
  with h1 h2 h3 h4 show ?thesis by blast
qed

section \<open>The claims\<close>

text \<open>
  C1 (the code departs from the claim). The claim: for every registry and every line,
  \<open>TokenizeLine\<close> returns tokens whose texts concatenate to the line. With a tokens
  file that declares only \<open>==\<close>, tokenizing the line \<open>=\<close> never returns: the call of
  \<open>findToken\<close> recurses for ever. (Where \<open>TokenizeLine\<close> does return tokens, their
  texts concatenate to the line: \<open>TokenizeLine_reconstructs\<close> above.)
\<close>

theorem TokenizeLine_never_returns:
  "TokenizeLine (loadTokens [''EQEQ =='']) ''='' 0 = None"
proof -
  let ?g = "loadTokens [''EQEQ =='']"
  have f: "Find (tokenKinds ?g) ''='' [] = [7]" by code_simp
  have x: "FindEx (tokenKinds ?g) ''='' [7] = []" by code_simp
  have "findToken ?g ''='' 1 [] = None"
    by (rule findToken_diverges [OF f x]) simp
  then show ?thesis
    by (simp add: TokenizeLine_def TokenizeLine_loop.simps [of _ _ _ 0])
qed

text \<open>
  C2 (the code departs from the claim). The claim: \<open>findToken\<close> terminates for every
  line and every starting step, and \<open>step\<close> never exceeds the length of the line.
  With the reserved kinds alone, \<open>findToken\<close> on the line \<open>&I\<close> from step 1 never
  returns: \<open>&I\<close> is part of the signature \<open>&IDEN\<close> only and is not equal to it, so
  each call makes the next one with \<open>step + 1\<close>.
\<close>

theorem findToken_never_returns:
  "findToken (loadTokens []) ''&I'' 1 [] = None"
proof -
  let ?g = "loadTokens []"
  have n1: "narrow ?g ''&I'' (Suc 0) [] = [1, 2, 3]" by code_simp
  have v1: "calcView ''&I'' (Suc 0) (Suc 0) = Inr ''I''" by code_simp
  have t1: "isToken ?g ''I'' = Inr False" by code_simp
  have s1: "settle ?g ''&I'' (Suc 0) [] = [1]" by code_simp
  have n2: "narrow ?g ''&I'' (Suc 0) [1] = [1]" by code_simp
  have x2: "FindEx (tokenKinds ?g) ''&'' [1] = []" by code_simp
  have f3: "Find (tokenKinds ?g) ''&I'' [] = [1]" by code_simp
  have x3: "FindEx (tokenKinds ?g) ''&I'' [1] = []" by code_simp
  have "findToken ?g ''&I'' (Suc 0) [] = findToken ?g ''&I'' (Suc 0) [1]"
    by (subst findToken_unfold) (simp add: findToken_body_def n1 v1 t1 s1)
  also have "\<dots> = findToken ?g ''&I'' (Suc (Suc 0)) []"
    by (subst findToken_unfold) (simp add: findToken_body_def n2 x2)
  also have "\<dots> = None"
    by (rule findToken_diverges [OF f3 x3]) simp
  finally show ?thesis by simp
qed

text \<open>
  C3 (the code departs from the claim). The claim: in every registry in which \<open>=\<close>
  and \<open>==\<close> are registered, tokenizing the line \<open>==\<close> yields exactly one token, of
  the kind whose signature is \<open>==\<close>. The tokens file with the lines \<open>EQ =\<close>,
  \<open>EQEQ ==\<close> and \<open>NIL \<close> registers \<open>=\<close>, \<open>==\<close> and a kind with the empty
  signature. On the line \<open>==\<close>, \<open>findToken\<close> at step 2 still holds the two
  candidates \<open>=\<close> and \<open>==\<close>, finds the empty text after the line to be a token,
  and goes on to step 3, where the look ahead \<open>calcView line 3 1\<close> takes the slice
  \<^verbatim>\<open>line[3:]\<close> of a line of length 2 and panics: no token is returned. (Without the empty signature the line is one token of the kind
  \<open>==\<close>: \<open>TokenizeLine_maximal_munch\<close> above.)
\<close>

theorem TokenizeLine_eqeq_panics:
  "map (Signature \<circ> snd) (drop 7 (tokenKinds (loadTokens [''EQ ='', ''EQEQ =='', ''NIL ''])))
     = [''='', ''=='', []]
   \<and> TokenizeLine (loadTokens [''EQ ='', ''EQEQ =='', ''NIL '']) ''=='' 0
     = Some (Inl SliceOutOfRange)"
  by code_simp

text \<open>
  C4 (the code departs from the claim). The claim: the text that \<open>findIdenToken\<close>
  returns ends exactly where a real token begins and never runs into a declared token.
  With \<open>=\<close> and \<open>==\<close> declared, \<open>findToken\<close> gives up on the line \<open>abc==x\<close> and hands
  the whole line to \<open>findIdenToken\<close>, which returns \<open>abc=\<close>: the generic token takes
  the first character of the \<open>==\<close> that follows \<open>abc\<close>.
\<close>

theorem findIdenToken_overruns:
  "findToken (loadTokens [''EQ ='', ''EQEQ =='']) ''abc==x'' 1 [] = Some (Inr (1, ''abc==x''))
   \<and> findIdenToken (loadTokens [''EQ ='', ''EQEQ =='']) ''abc==x'' = Inr ''abc=''"
  by code_simp

text \<open>
  The example of the claim does hold: with \<open>==\<close> declared, the line \<open>abc==\<close> gives
  the generic token \<open>abc\<close> and the token \<open>==\<close>.
\<close>

lemma TokenizeLine_abc_eqeq:
  "TokenizeLine (loadTokens [''EQEQ =='']) ''abc=='' 0 = Some
    (Inr [\<lparr>Kind = \<lparr>Id' = 1, Name = ''GENIDEN'', Signature = ''&IDEN''\<rparr>,
             LineNo = 0, Position = 1, Symbol = ''abc''\<rparr>,
          \<lparr>Kind = \<lparr>Id' = 7, Name = ''EQEQ'', Signature = ''==''\<rparr>,
             LineNo = 0, Position = 4, Symbol = ''==''\<rparr>])"
  by code_simp

text \<open>
  C5 (the code departs from the claim). The claim: the first window of \<open>isToken\<close> is
  the minimum of the longest signature length and the length of the text. \<open>calcStep\<close>
  returns the length of the text whatever the longest signature is: with the reserved
  kinds alone the longest signature has 5 characters, and the window on a text of 8
  characters is 8.
\<close>

theorem calcStep_ignores_maximum:
  "calcStep (loadTokens []) ''abcdefgh'' = 8
   \<and> min (tokenKindSignatureMaxSize (loadTokens [])) (int (length ''abcdefgh'')) = 5"
  by code_simp

text \<open>
  C6 (amended). The claim: in every registry built by the loader the ids are assigned
  strictly increasing from 0 in registration order and never reused, ids 0 to 6 are the
  reserved kinds in their order, every declared kind has an id from 7 on, and
  registration is append-only. The counter is a \<^verbatim>\<open>uint16\<close> and wraps, so this holds
  as long as the tokens file declares at most 65529 kinds: then the keys of the map, in
  registration order, are 0, 1, 2, ... with no gap and no repetition, each kind carries
  its key as its \<open>Id'\<close>, the first seven entries are the reserved kinds, the \<open>j\<close>-th
  declared kind has id \<open>7 + j\<close>, and loading a longer file (within the bound) leaves
  these entries as they are and adds the new ones after them.
\<close>

theorem loadTokens_ids:
  assumes "length (declared file) \<le> 65529"
  shows "map (unat \<circ> fst) (tokenKinds (loadTokens file)) = [0..<7 + length (declared file)]
    \<and> map (Id' \<circ> snd) (tokenKinds (loadTokens file)) = map fst (tokenKinds (loadTokens file))
    \<and> map snd (take 7 (tokenKinds (loadTokens file))) = reservedKinds
    \<and> map snd (drop 7 (tokenKinds (loadTokens file))) =
        map (\<lambda>j. \<lparr>Id' = of_nat (7 + j), Name = fst (declared file ! j),
                  Signature = snd (declared file ! j)\<rparr>) [0..<length (declared file)]
    \<and> map (unat \<circ> fst) (drop 7 (tokenKinds (loadTokens file))) = [7..<7 + length (declared file)]
    \<and> (\<forall>rest. length (declared (file @ rest)) \<le> 65529 \<longrightarrow>
          take (7 + length (declared file)) (tokenKinds (loadTokens (file @ rest)))
            = tokenKinds (loadTokens file))"
proof -
  let ?d = "declared file"
  have reg: "tokenKinds (loadTokens file) = registry (reserved @ ?d)"
    by (rule loadTokens_registry [OF assms])
  have len: "length (reserved @ ?d) \<le> 65536" using assms by (simp add: length_reserved)
  have a: "map (unat \<circ> fst) (tokenKinds (loadTokens file)) = [0..<7 + length ?d]"
    unfolding reg using registry_unat_keys [OF len] by (simp add: length_reserved)
  have b: "map (Id' \<circ> snd) (tokenKinds (loadTokens file)) = map fst (tokenKinds (loadTokens file))"
    unfolding reg by (simp add: registry_def kindAt_def comp_def)
  have l7: "length (registry reserved) = 7" by (simp add: registry_def length_reserved)
  have c: "map snd (take 7 (tokenKinds (loadTokens file))) = reservedKinds"
    unfolding reg registry_append using l7 by (simp add: registry_reserved)
  have d: "map snd (drop 7 (tokenKinds (loadTokens file))) =
        map (\<lambda>j. \<lparr>Id' = of_nat (7 + j), Name = fst (?d ! j), Signature = snd (?d ! j)\<rparr>)
          [0..<length ?d]"
    unfolding reg registry_append using l7 by (simp add: kindAt_def length_reserved comp_def)
  have e: "map (unat \<circ> fst) (drop 7 (tokenKinds (loadTokens file))) = [7..<7 + length ?d]"
  proof -
    have "map (unat \<circ> fst) (drop 7 (tokenKinds (loadTokens file)))
        = drop 7 (map (unat \<circ> fst) (tokenKinds (loadTokens file)))"
      by (simp only: drop_map)
    also have "\<dots> = drop 7 [0..<7 + length ?d]" by (simp only: a)
    also have "\<dots> = [7..<7 + length ?d]" by simp
    finally show ?thesis .
  qed
  have f: "take (7 + length ?d) (tokenKinds (loadTokens (file @ rest))) = tokenKinds (loadTokens file)"
    if "length (declared (file @ rest)) \<le> 65529" for rest
  proof -
    have "tokenKinds (loadTokens (file @ rest)) = registry ((reserved @ ?d) @ declared rest)"
      using loadTokens_registry [OF that] by (simp add: declared_append)
    also have "take (7 + length ?d) \<dots> = registry (reserved @ ?d)"
      unfolding registry_append [of "reserved @ ?d"] by (simp add: registry_def length_reserved)
    finally show ?thesis by (simp add: reg)
  qed
  show ?thesis
    apply (intro conjI allI impI)
         apply (rule a)
        apply (rule b)
       apply (rule c)
      apply (rule d)
     apply (rule e)
    apply (erule f)
    done
qed

text \<open>C6, at the tokens file with the two lines \<open>EQ =\<close> and \<open>EQEQ ==\<close>.\<close>

theorem loadTokens_ids_witness:
  "length (declared [''EQ ='', ''EQEQ ==''])  \<le> 65529
   \<and> map (unat \<circ> fst) (tokenKinds (loadTokens [''EQ ='', ''EQEQ ==''])) = [0..<9]
   \<and> map snd (take 7 (tokenKinds (loadTokens [''EQ ='', ''EQEQ ==''])))  = reservedKinds
   \<and> map (unat \<circ> fst) (drop 7 (tokenKinds (loadTokens [''EQ ='', ''EQEQ ==''])))  = [7..<9]"
proof -
  have h: "length (declared [''EQ ='', ''EQEQ ==''])  \<le> 65529"
    by (simp add: declared_EQ_EQEQ)
  show ?thesis using h loadTokens_ids [OF h] by (simp add: declared_EQ_EQEQ)
qed

text \<open>
  C6 as stated fails beyond the bound: with 65530 declarations the last one is
  registered under id 0, in place of the whitespace kind.
\<close>

theorem tokenKindId_wraps:
  "Get (tokenKinds (loadTokens (replicate 65529 ''A b'' @ [''A b'']))) 0
     = \<lparr>Id' = 0, Name = ''A'', Signature = ''b''\<rparr>"
proof -
  let ?file = "replicate 65529 ''A b''"
  have k: "tokenKindId (loadTokens ?file) = 0"
    by (simp add: tokenKindId_loadTokens declared_replicate_A_b)
  have "loadTokens (?file @ [''A b'']) = Add (loadTokens ?file) ''A'' ''b''"
    by (rule loadTokens_snoc [OF parseLine_A_b]) simp
  with Get_Add_same [of "loadTokens ?file" "''A''" "''b''"] k show ?thesis by simp
qed

text \<open>
  C7 (amended). The claim: \<open>Get\<close> with an id that was never registered fails with
  an UnknownKind error, and with a registered id returns the kind registered under it.
  \<open>Get\<close> reads the Go map, which has no failure. For a registry built by the loader
  (at most 65529 declarations): \<open>Get\<close> at the id \<open>i\<close> of the \<open>i\<close>-th registration
  returns that kind, and \<open>Get\<close> at any id that was never registered returns the zero
  \<open>TokenKind\<close> (id 0, empty name, empty signature).
\<close>

theorem Get_registered_or_zero:
  assumes "length (declared file) \<le> 65529"
  shows "(\<forall>i<7 + length (declared file).
            Get (tokenKinds (loadTokens file)) (of_nat i)
              = \<lparr>Id' = of_nat i, Name = fst ((reserved @ declared file) ! i),
                  Signature = snd ((reserved @ declared file) ! i)\<rparr>)
       \<and> (\<forall>tid. 7 + length (declared file) \<le> unat tid \<longrightarrow>
            Get (tokenKinds (loadTokens file)) tid = \<lparr>Id' = 0, Name = [], Signature = []\<rparr>)"
proof -
  let ?regs = "reserved @ declared file"
  have reg: "tokenKinds (loadTokens file) = registry ?regs"
    by (rule loadTokens_registry [OF assms])
  have len: "length ?regs \<le> 65536" using assms by (simp add: length_reserved)
  have l: "length ?regs = 7 + length (declared file)" by (simp add: length_reserved)
  show ?thesis
    unfolding reg
    using Get_registry [OF len] Get_registry_unregistered [of ?regs]
    by (simp add: kindAt_def zeroKind_def length_reserved)
qed

text \<open>C7, at the registry of the reserved kinds: the ids 2 and 100.\<close>

theorem Get_registered_or_zero_witness:
  "length (declared []) \<le> 65529
   \<and> Get (tokenKinds (loadTokens [])) 2 = \<lparr>Id' = 2, Name = ''GENTYPE'', Signature = ''&TYPE''\<rparr>
   \<and> Get (tokenKinds (loadTokens [])) 100 = \<lparr>Id' = 0, Name = [], Signature = []\<rparr>"
proof -
  have h: "length (declared []) \<le> 65529" by (simp add: declared_Nil)
  from Get_registered_or_zero [OF h] have
    a: "\<forall>i<7 + length (declared []).
            Get (tokenKinds (loadTokens [])) (of_nat i)
              = \<lparr>Id' = of_nat i, Name = fst ((reserved @ declared []) ! i),
                  Signature = snd ((reserved @ declared []) ! i)\<rparr>"
    and b: "\<forall>tid. 7 + length (declared []) \<le> unat tid \<longrightarrow>
            Get (tokenKinds (loadTokens [])) tid = \<lparr>Id' = 0, Name = [], Signature = []\<rparr>"
    by blast+
  from a [rule_format, of 2] have "Get (tokenKinds (loadTokens [])) 2 = \<lparr>Id' = 2, Name = ''GENTYPE'', Signature = ''&TYPE''\<rparr>"
    by (simp add: declared_Nil reserved_def)
  moreover from b [rule_format, of 100] have "Get (tokenKinds (loadTokens [])) 100 = \<lparr>Id' = 0, Name = [], Signature = []\<rparr>"
    by (simp add: declared_Nil)
  ultimately show ?thesis using h by simp
qed

text \<open>
  C7 as stated fails: id 7 was never registered when the tokens file is empty, and
  \<open>Get\<close> returns a value there.
\<close>

theorem Get_unregistered_returns:
  "Get (tokenKinds (loadTokens [])) 7 = \<lparr>Id' = 0, Name = [], Signature = []\<rparr>"
  by code_simp

text \<open>
  C8 (amended). The claim: \<open>findToken\<close> never returns id 2 (generic type) or id 3
  (generic object). Both kinds are in the table that \<open>findToken\<close> searches, under
  the signatures \<open>&TYPE\<close> and \<open>&OBJ\<close>. For a registry built by the loader (at most
  65529 declarations), \<open>findToken\<close> returns id 2 only with the text \<open>&TYPE\<close> on a
  line that starts with \<open>&TYPE\<close>, and id 3 only with the text \<open>&OBJ\<close> on a line that
  starts with \<open>&OBJ\<close>.
\<close>

theorem findToken_reserved_generic:
  assumes "length (declared file) \<le> 65529"
    and "findToken (loadTokens file) line step ids = Some (Inr (tid, sig))"
  shows "(tid = 2 \<longrightarrow> sig = ''&TYPE'' \<and> take 5 line = ''&TYPE'')
       \<and> (tid = 3 \<longrightarrow> sig = ''&OBJ'' \<and> take 4 line = ''&OBJ'')"
proof -
  let ?g = "loadTokens file"
  let ?regs = "reserved @ declared file"
  have reg: "tokenKinds ?g = registry ?regs"
    by (rule loadTokens_registry [OF assms(1)])
  have len: "length ?regs \<le> 65536" using assms(1) by (simp add: length_reserved)
  have g2: "Signature (Get (tokenKinds ?g) 2) = ''&TYPE''"
    unfolding reg using Get_registry [OF len, of 2]
    by (simp add: length_reserved kindAt_def) (simp add: reserved_def)
  have g3: "Signature (Get (tokenKinds ?g) 3) = ''&OBJ''"
    unfolding reg using Get_registry [OF len, of 3]
    by (simp add: length_reserved kindAt_def) (simp add: reserved_def)
  from assms(2) have "findToken_run ?g line step ids (Inr (tid, sig))"
    by (simp add: findToken_iff)
  from findToken_run_exact [OF this refl]
  have ex: "tid \<noteq> 1 \<Longrightarrow> Signature (Get (tokenKinds ?g) tid) = sig \<and> (\<exists>n. sig = take n line)"
    by auto
  have pre: "take (length s) line = s" if "s = take n line" for s n
    using that by (simp add: min_def)
  show ?thesis
  proof (intro conjI impI)
    assume t: "tid = 2"
    with ex g2 show "sig = ''&TYPE''" by auto
    from t ex g2 obtain n where "''&TYPE'' = take n line" by auto
    from pre [OF this] show "take 5 line = ''&TYPE''" by (simp add: eval_nat_numeral)
  next
    assume t: "tid = 3"
    with ex g3 show "sig = ''&OBJ''" by auto
    from t ex g3 obtain n where "''&OBJ'' = take n line" by auto
    from pre [OF this] show "take 4 line = ''&OBJ''" by (simp add: eval_nat_numeral)
  qed
qed

text \<open>C8, at the registry of the reserved kinds and the line \<open>&TYPE\<close>.\<close>

theorem findToken_reserved_generic_witness:
  "length (declared []) \<le> 65529
   \<and> findToken (loadTokens []) ''&TYPE'' 1 [] = Some (Inr (2, ''&TYPE''))
   \<and> take 5 ''&TYPE'' = ''&TYPE''"
proof -
  have h: "length (declared []) \<le> 65529" by (simp add: declared_Nil)
  from findToken_reserved_generic [OF h findToken_TYPE] h findToken_TYPE show ?thesis by simp
qed

text \<open>C8 as stated fails: on the line \<open>&TYPE\<close>, \<open>findToken\<close> returns id 2.\<close>

theorem findToken_returns_GENTYPE:
  "findToken (loadTokens []) ''&TYPE'' 1 [] = Some (Inr (2, ''&TYPE''))"
  by (rule findToken_TYPE)

text \<open>
  C9 (the code departs from the claim). The claim: no slice taken during
  \<open>TokenizeLine\<close> is out of range. With the reserved kinds alone, tokenizing the line
  \<open>&\<close> reaches \<open>calcView line 2 1\<close> on a line of length 1, whose slice
  \<^verbatim>\<open>line[2:]\<close> panics.
\<close>

theorem TokenizeLine_slice_panic:
  "TokenizeLine (loadTokens []) ''&'' 0 = Some (Inl SliceOutOfRange)"
  by code_simp




end
